theory Spec2Isabelle
  imports Main
begin

section \<open>The broker of \<^verbatim>\<open>src/main.go\<close>\<close>

text \<open>
  A client channel (\<^verbatim>\<open>chan []byte\<close>) is a reference: two channels are equal when they are
  the same channel object. It is modelled by a natural number, its identity. An event is
  the byte slice sent through \<^verbatim>\<open>Notifier\<close>.
\<close>

type_synonym chan = nat
type_synonym event = string

text \<open>
  The state the loop of \<^verbatim>\<open>listen\<close> works on: the registry \<^verbatim>\<open>broker.clients\<close>
  (\<^verbatim>\<open>map[chan []byte]bool\<close>), and for every client channel the values that have been
  handed over on it so far, oldest first. The client channels are unbuffered (line 63), so
  a send on one completes exactly when the session takes the value.
  The two \<^verbatim>\<open>log.Printf\<close> lines of the loop are not part of the model.
\<close>

record Broker =
  clients :: "chan \<rightharpoonup> bool"
  recvd :: "chan \<Rightarrow> event list"

text \<open>
  One iteration of the \<^verbatim>\<open>select\<close> takes a value from one of the three channels
  \<^verbatim>\<open>newClients\<close>, \<^verbatim>\<open>closingClients\<close> and \<^verbatim>\<open>Notifier\<close>.
\<close>

datatype request = NewClient chan | ClosingClient chan | Notify event

text \<open>\<^verbatim>\<open>NewServer\<close> makes an empty registry; nothing has been sent yet.\<close>

definition NewServer :: Broker where
  "NewServer = \<lparr>clients = Map.empty, recvd = (\<lambda>c. [])\<rparr>"

text \<open>
  Lines 39 to 41: \<^verbatim>\<open>for clientMsgChan := range broker.clients { clientMsgChan <- event }\<close>.
  The keys arrive in the order \<open>ks\<close> the runtime picks. The send on an unbuffered channel
  waits for a receiver: \<open>rcv c\<close> says that the session owning \<open>c\<close> comes to receive.
  Where it never does, the send never completes and neither does the loop: the result
  is \<open>None\<close>.
\<close>

fun range_send ::
  "(chan \<Rightarrow> bool) \<Rightarrow> chan list \<Rightarrow> event \<Rightarrow> (chan \<Rightarrow> event list) \<Rightarrow> (chan \<Rightarrow> event list) option"
where
  "range_send rcv [] ev h = Some h"
| "range_send rcv (c # cs) ev h =
     (if rcv c then range_send rcv cs ev (h(c := h c @ [ev])) else None)"

text \<open>
  Go leaves the order of a \<^verbatim>\<open>range\<close> over a map open; each key of the map is
  produced once.
\<close>

definition range_order :: "(chan \<rightharpoonup> bool) \<Rightarrow> chan list \<Rightarrow> bool" where
  "range_order m ks \<longleftrightarrow> distinct ks \<and> set ks = dom m"

text \<open>
  One completed iteration of the \<^verbatim>\<open>for { select { ... } }\<close> of \<^verbatim>\<open>listen\<close>, lines 25 to 42.
\<close>

inductive listen_step :: "Broker \<Rightarrow> request \<Rightarrow> Broker \<Rightarrow> bool" where
  new_client:
    "listen_step b (NewClient s) (b\<lparr>clients := (clients b)(s \<mapsto> True)\<rparr>)"
| closing_client:
    "listen_step b (ClosingClient s) (b\<lparr>clients := (clients b)(s := None)\<rparr>)"
| notifier:
    "range_order (clients b) ks \<Longrightarrow> range_send rcv ks ev (recvd b) = Some h
       \<Longrightarrow> listen_step b (Notify ev) (b\<lparr>recvd := h\<rparr>)"

text \<open>The loop, over the requests it has processed so far.\<close>

inductive listen :: "Broker \<Rightarrow> request list \<Rightarrow> Broker \<Rightarrow> bool" where
  idle: "listen b [] b"
| iterate: "listen_step b r b' \<Longrightarrow> listen b' rs b'' \<Longrightarrow> listen b (r # rs) b''"

section \<open>The session handler\<close>

text \<open>
  What \<^verbatim>\<open>ServeHTTP\<close> does to the outside, one constructor per kind of statement:
  \<^verbatim>\<open>http.Error(rw, msg, code)\<close>, \<^verbatim>\<open>rw.Header().Set(k, v)\<close>, the sends
  \<^verbatim>\<open>broker.newClients <- c\<close> and \<^verbatim>\<open>broker.closingClients <- c\<close>, the bytes
  \<^verbatim>\<open>fmt.Fprintf\<close> writes to \<^verbatim>\<open>rw\<close>, and \<^verbatim>\<open>flusher.Flush()\<close>.
\<close>

datatype effect =
    HttpError string nat
  | HeaderSet string string
  | SendNewClients chan
  | SendClosingClients chan
  | Write string
  | Flush

text \<open>
  Where the handler's goroutine is once its input is used up: it has returned, or it
  waits in \<^verbatim>\<open><-msgChan\<close> for the next event.
\<close>

datatype status = Returned | Receiving

text \<open>
  The part of \<^verbatim>\<open>fmt\<close>'s formatting that the handler's format string uses: bytes of
  the format are copied, and the verb \<^verbatim>\<open>%s\<close> is replaced by the bytes of the next operand
  (a byte slice is printed as it is), or by \<^verbatim>\<open>%!s(MISSING)\<close> when no operand is left.
\<close>

fun Sprintf :: "string \<Rightarrow> string list \<Rightarrow> string" where
  "Sprintf [] args = []"
| "Sprintf [c] args = [c]"
| "Sprintf (c # d # fmt) args =
     (if c = CHR ''%'' \<and> d = CHR ''s'' then
        (case args of
           [] \<Rightarrow> ''%!s(MISSING)'' @ Sprintf fmt []
         | a # rest \<Rightarrow> a @ Sprintf fmt rest)
      else c # Sprintf (d # fmt) args)"

text \<open>
  \<^verbatim>\<open>fmt.Fprintf(w, format, a...)\<close> formats and hands the bytes to \<open>w\<close> in one write.
\<close>

definition Fprintf :: "string \<Rightarrow> string list \<Rightarrow> effect" where
  "Fprintf format args = Write (Sprintf format args)"

text \<open>
  Lines 79 to 83, \<^verbatim>\<open>for { fmt.Fprintf(rw, "data: %s\n\n", <-msgChan); flusher.Flush() }\<close>,
  over the events that arrive on \<^verbatim>\<open>msgChan\<close>; with each comes whether its write to the
  transport succeeded. \<^verbatim>\<open>Fprintf\<close>'s result is dropped by the source, so the flag is not
  looked at. The loop has no \<^verbatim>\<open>break\<close> and no \<^verbatim>\<open>return\<close>: after the last event it
  waits for the next one.
\<close>

fun for_loop :: "(event \<times> bool) list \<Rightarrow> effect list \<times> status" where
  "for_loop [] = ([], Receiving)"
| "for_loop ((ev, ok) # rest) =
     (case for_loop rest of
        (effs, st) \<Rightarrow> (Fprintf ''data: %s\<newline>\<newline>'' [ev] # Flush # effs, st))"

text \<open>
  One call of \<^verbatim>\<open>ServeHTTP\<close>: the effects of the handler's own goroutine in program order,
  the effects of the goroutine started at line 73, and where the handler ends up.
\<close>

record session =
  handler :: "effect list"
  watcher :: "effect list"
  exit :: status

text \<open>
  \<^verbatim>\<open>ServeHTTP\<close>, lines 47 to 84. \<open>flusher_ok\<close> is the result of the type assertion
  \<^verbatim>\<open>rw.(http.Flusher)\<close>, \<open>msgChan\<close> the channel that \<^verbatim>\<open>make\<close> returns, \<open>incoming\<close>
  the events that arrive on it, \<open>ctx_done\<close> whether the request's context gets
  cancelled. The function deferred at line 67 runs when the handler returns; the
  goroutine of line 73 sends on \<^verbatim>\<open>closingClients\<close> once the context is done.
\<close>

definition ServeHTTP :: "bool \<Rightarrow> chan \<Rightarrow> (event \<times> bool) list \<Rightarrow> bool \<Rightarrow> session" where
  "ServeHTTP flusher_ok msgChan incoming ctx_done =
     (if \<not> flusher_ok then
        \<lparr>handler = [HttpError ''Streaming unsupported!'' 500], watcher = [], exit = Returned\<rparr>
      else
        (case for_loop incoming of
           (effs, st) \<Rightarrow>
             \<lparr>handler =
                [HeaderSet ''Content-Type'' ''text/event-stream'',
                 HeaderSet ''Cache-Control'' ''no-cache'',
                 HeaderSet ''Connection'' ''keep-alive'',
                 HeaderSet ''Access-Control-Allow-Origin'' ''*'',
                 SendNewClients msgChan]
                @ effs
                @ (if st = Returned then [SendClosingClients msgChan] else []),
              watcher = (if ctx_done then [SendClosingClients msgChan] else []),
              exit = st\<rparr>))"

text \<open>The requests that reach the loop of \<^verbatim>\<open>listen\<close> from a list of effects.\<close>

fun requests_of :: "effect list \<Rightarrow> request list" where
  "requests_of [] = []"
| "requests_of (SendNewClients c # effs) = NewClient c # requests_of effs"
| "requests_of (SendClosingClients c # effs) = ClosingClient c # requests_of effs"
| "requests_of (e # effs) = requests_of effs"

text \<open>The byte strings written to the transport.\<close>

fun written :: "effect list \<Rightarrow> string list" where
  "written [] = []"
| "written (Write bs # effs) = bs # written effs"
| "written (e # effs) = written effs"

section \<open>The specification's notions\<close>

text \<open>
  In the specification's words: an Attach for the sink has been processed and no matching
  Detach has been processed since. \<open>rs\<close> are the requests processed so far, oldest first.
\<close>

definition attached_since :: "chan \<Rightarrow> request list \<Rightarrow> bool" where
  "attached_since s rs \<longleftrightarrow>
     (\<exists>i\<in>{0..<length rs}. rs ! i = NewClient s \<and>
        (\<forall>j\<in>{Suc i..<length rs}. rs ! j \<noteq> ClosingClient s))"

text \<open>
  In the specification's words: the events published while the sink is a member, in the
  order in which their Publish was processed.
\<close>

definition published_while_member :: "chan \<Rightarrow> request list \<Rightarrow> event list" where
  "published_while_member s rs =
     concat (map (\<lambda>i. case rs ! i of
                         Notify ev \<Rightarrow> if attached_since s (take i rs) then [ev] else []
                       | _ \<Rightarrow> [])
                 [0..<length rs])"

text \<open>
  The scenarios of the specification in one request list: attach C1, publish
  \<^verbatim>\<open>hello\<close>, attach C2, publish \<^verbatim>\<open>world\<close>, detach C1, publish \<^verbatim>\<open>x\<close>.
\<close>

definition scenario :: "request list" where
  "scenario = [NewClient 1, Notify ''hello'', NewClient 2, Notify ''world'',
               ClosingClient 1, Notify ''x'']"

section \<open>Properties of the loop\<close>

inductive_cases listen_NilE: "listen b [] b'"
inductive_cases listen_ConsE: "listen b (r # rs) b'"
inductive_cases new_clientE: "listen_step b (NewClient s) b'"
inductive_cases closing_clientE: "listen_step b (ClosingClient s) b'"
inductive_cases notifierE: "listen_step b (Notify ev) b'"

lemma range_send_all:
  "distinct ks \<Longrightarrow> \<forall>c\<in>set ks. rcv c \<Longrightarrow>
     range_send rcv ks ev h = Some (\<lambda>c. if c \<in> set ks then h c @ [ev] else h c)"
proof (induction ks arbitrary: h)
  case Nil
  then show ?case by simp
next
  case (Cons k ks)
  then show ?case by (auto simp: fun_eq_iff)
qed

lemma range_send_Some_rcv:
  "range_send rcv ks ev h = Some h' \<Longrightarrow> \<forall>c\<in>set ks. rcv c"
  by (induction ks arbitrary: h) (auto split: if_splits)

lemma range_send_None_iff:
  "range_send rcv ks ev h = None \<longleftrightarrow> (\<exists>c\<in>set ks. \<not> rcv c)"
  by (induction ks arbitrary: h) auto

lemma notify_step:
  assumes "listen_step b (Notify ev) b'"
  shows "b' = b\<lparr>recvd := (\<lambda>c. if c \<in> dom (clients b) then recvd b c @ [ev] else recvd b c)\<rparr>"
proof -
  from assms obtain ks rcv h where
    b': "b' = b\<lparr>recvd := h\<rparr>" and ro: "range_order (clients b) ks"
    and rs: "range_send rcv ks ev (recvd b) = Some h"
    by (rule notifierE)
  from ro have d: "distinct ks" and s: "set ks = dom (clients b)"
    by (simp_all add: range_order_def)
  from rs have "\<forall>c\<in>set ks. rcv c" by (rule range_send_Some_rcv)
  with d have "range_send rcv ks ev (recvd b) =
      Some (\<lambda>c. if c \<in> set ks then recvd b c @ [ev] else recvd b c)"
    by (rule range_send_all)
  with rs s have "h = (\<lambda>c. if c \<in> dom (clients b) then recvd b c @ [ev] else recvd b c)"
    by simp
  with b' show ?thesis by simp
qed

lemma listen_Nil: "listen b [] b' \<longleftrightarrow> b' = b"
  by (auto intro: listen.intros elim: listen_NilE)

lemma listen_Cons:
  "listen b (r # rs) b'' \<longleftrightarrow> (\<exists>b'. listen_step b r b' \<and> listen b' rs b'')"
  by (auto intro: listen.intros elim: listen_ConsE)

lemma listen_append:
  "listen b (rs @ rs') b'' \<longleftrightarrow> (\<exists>b'. listen b rs b' \<and> listen b' rs' b'')"
proof (induction rs arbitrary: b)
  case Nil
  show ?case by (simp add: listen_Nil)
next
  case (Cons r rs)
  show ?case by (simp add: listen_Cons Cons.IH) blast
qed

lemma listen_single: "listen b [r] b' \<longleftrightarrow> listen_step b r b'"
  by (simp add: listen_Cons listen_Nil)

lemma new_client_step:
  "listen_step b (NewClient s) b' \<longleftrightarrow> b' = b\<lparr>clients := (clients b)(s \<mapsto> True)\<rparr>"
  by (auto intro: listen_step.intros elim: new_clientE)

lemma closing_client_step:
  "listen_step b (ClosingClient s) b' \<longleftrightarrow> b' = b\<lparr>clients := (clients b)(s := None)\<rparr>"
  by (auto intro: listen_step.intros elim: closing_clientE)

lemma attached_since_Nil: "\<not> attached_since s []"
  by (simp add: attached_since_def)

lemma attached_since_snoc:
  "attached_since s (rs @ [r]) \<longleftrightarrow>
     r = NewClient s \<or> (attached_since s rs \<and> r \<noteq> ClosingClient s)"
proof
  assume "attached_since s (rs @ [r])"
  then obtain i where i: "i < Suc (length rs)" "(rs @ [r]) ! i = NewClient s"
    and later: "\<forall>j. Suc i \<le> j \<and> j < Suc (length rs) \<longrightarrow> (rs @ [r]) ! j \<noteq> ClosingClient s"
    by (auto simp: attached_since_def)
  show "r = NewClient s \<or> (attached_since s rs \<and> r \<noteq> ClosingClient s)"
  proof (cases "i = length rs")
    case True
    with i show ?thesis by simp
  next
    case False
    with i have il: "i < length rs" by simp
    with i have "rs ! i = NewClient s" by (simp add: nth_append)
    moreover have "\<forall>j\<in>{Suc i..<length rs}. rs ! j \<noteq> ClosingClient s"
    proof
      fix j assume "j \<in> {Suc i..<length rs}"
      then have j: "Suc i \<le> j" "j < length rs" by simp_all
      with later have "(rs @ [r]) ! j \<noteq> ClosingClient s" by simp
      with j show "rs ! j \<noteq> ClosingClient s" by (simp add: nth_append)
    qed
    ultimately have "attached_since s rs" using il by (auto simp: attached_since_def)
    moreover from il have "Suc i \<le> length rs \<and> length rs < Suc (length rs)" by simp
    with later have "(rs @ [r]) ! length rs \<noteq> ClosingClient s" by blast
    then have "r \<noteq> ClosingClient s" by simp
    ultimately show ?thesis by simp
  qed
next
  assume "r = NewClient s \<or> (attached_since s rs \<and> r \<noteq> ClosingClient s)"
  then show "attached_since s (rs @ [r])"
  proof
    assume "r = NewClient s"
    then have "(rs @ [r]) ! length rs = NewClient s" by simp
    then show ?thesis
      unfolding attached_since_def by (intro bexI [of _ "length rs"]) auto
  next
    assume a: "attached_since s rs \<and> r \<noteq> ClosingClient s"
    then obtain i where i: "i < length rs" "rs ! i = NewClient s"
      and later: "\<forall>j\<in>{Suc i..<length rs}. rs ! j \<noteq> ClosingClient s"
      by (auto simp: attached_since_def)
    have "\<forall>j\<in>{Suc i..<length (rs @ [r])}. (rs @ [r]) ! j \<noteq> ClosingClient s"
    proof
      fix j assume "j \<in> {Suc i..<length (rs @ [r])}"
      then have j: "Suc i \<le> j" "j < Suc (length rs)" by simp_all
      show "(rs @ [r]) ! j \<noteq> ClosingClient s"
      proof (cases "j = length rs")
        case True
        with a show ?thesis by simp
      next
        case False
        with j have "j < length rs" by simp
        with j later show ?thesis by (simp add: nth_append)
      qed
    qed
    with i show ?thesis
      unfolding attached_since_def by (intro bexI [of _ i]) (auto simp: nth_append)
  qed
qed

lemma published_while_member_Nil: "published_while_member s [] = []"
  by (simp add: published_while_member_def)

lemma published_while_member_snoc:
  "published_while_member s (rs @ [r]) =
     published_while_member s rs @
       (case r of Notify ev \<Rightarrow> if attached_since s rs then [ev] else [] | _ \<Rightarrow> [])"
proof -
  have "map (\<lambda>i. case (rs @ [r]) ! i of
                   Notify ev \<Rightarrow> if attached_since s (take i (rs @ [r])) then [ev] else []
                 | _ \<Rightarrow> []) [0..<length rs]
      = map (\<lambda>i. case rs ! i of
                   Notify ev \<Rightarrow> if attached_since s (take i rs) then [ev] else []
                 | _ \<Rightarrow> []) [0..<length rs]"
    by (rule map_cong) (simp_all add: nth_append split: request.splits)
  then have "published_while_member s (rs @ [r]) =
      published_while_member s rs @
        (case (rs @ [r]) ! length rs of
           Notify ev \<Rightarrow> if attached_since s (take (length rs) (rs @ [r])) then [ev] else []
         | _ \<Rightarrow> [])"
    unfolding published_while_member_def by (simp del: map_eq_conv)
  then show ?thesis by (simp split: request.splits)
qed

lemma step_recvd:
  "listen_step b r b' \<Longrightarrow>
     recvd b' s = recvd b s @
       (case r of Notify ev \<Rightarrow> if s \<in> dom (clients b) then [ev] else [] | _ \<Rightarrow> [])"
  by (cases r) (auto simp: new_client_step closing_client_step domIff dest!: notify_step)

lemma step_clients:
  "listen_step b r b' \<Longrightarrow>
     clients b' s =
       (if r = NewClient s then Some True
        else if r = ClosingClient s then None else clients b s)"
  by (cases r) (auto simp: new_client_step closing_client_step dest!: notify_step)

lemma step_finite:
  "listen_step b r b' \<Longrightarrow> finite (dom (clients b)) \<Longrightarrow> finite (dom (clients b'))"
  by (cases r) (auto simp: new_client_step closing_client_step dest!: notify_step)

lemma range_order_ex: "finite (dom m) \<Longrightarrow> \<exists>ks. range_order m ks"
  unfolding range_order_def using finite_distinct_list [of "dom m"] by blast

lemma step_ex: "finite (dom (clients b)) \<Longrightarrow> \<exists>b'. listen_step b r b'"
proof (cases r)
  case (Notify ev)
  assume "finite (dom (clients b))"
  then obtain ks where ks: "range_order (clients b) ks"
    using range_order_ex by blast
  then have "distinct ks" by (simp add: range_order_def)
  then have "range_send (\<lambda>c. True) ks ev (recvd b) =
      Some (\<lambda>c. if c \<in> set ks then recvd b c @ [ev] else recvd b c)"
    by (rule range_send_all) simp
  with ks have "listen_step b (Notify ev)
      (b\<lparr>recvd := (\<lambda>c. if c \<in> set ks then recvd b c @ [ev] else recvd b c)\<rparr>)"
    by (rule listen_step.notifier)
  with Notify show ?thesis by blast
qed (auto intro: listen_step.intros)

lemma listen_ex: "finite (dom (clients b)) \<Longrightarrow> \<exists>b'. listen b rs b'"
proof (induction rs arbitrary: b)
  case Nil
  show ?case by (auto intro: listen.idle)
next
  case (Cons r rs)
  from Cons.prems obtain b1 where s: "listen_step b r b1" using step_ex by blast
  with Cons.prems have "finite (dom (clients b1))" by (rule step_finite [rotated])
  then obtain b2 where "listen b1 rs b2" using Cons.IH by blast
  with s show ?case by (auto intro: listen.iterate)
qed

lemma listen_finite:
  "listen b rs b' \<Longrightarrow> finite (dom (clients b)) \<Longrightarrow> finite (dom (clients b'))"
  by (induction rule: listen.induct) (auto dest: step_finite)

lemma listen_recvd_prefix:
  "listen b rs b' \<Longrightarrow> \<exists>more. recvd b' s = recvd b s @ more"
proof (induction rule: listen.induct)
  case (idle b)
  show ?case by simp
next
  case (iterate b r b' rs b'')
  from iterate.hyps(1) obtain one where "recvd b' s = recvd b s @ one"
    using step_recvd by blast
  with iterate.IH show ?case by auto
qed

lemma listen_stays_out:
  "listen b rs b' \<Longrightarrow> clients b s = None \<Longrightarrow> NewClient s \<notin> set rs \<Longrightarrow>
     clients b' s = None \<and> recvd b' s = recvd b s"
proof (induction rule: listen.induct)
  case (idle b)
  then show ?case by simp
next
  case (iterate b r b' rs b'')
  from iterate.prems have r: "r \<noteq> NewClient s" and rs: "NewClient s \<notin> set rs" by auto
  from iterate.hyps(1) r iterate.prems(1) have c: "clients b' s = None"
    by (simp add: step_clients)
  from iterate.prems(1) have "s \<notin> dom (clients b)" by (simp add: domIff)
  with iterate.hyps(1) have "recvd b' s = recvd b s"
    by (simp add: step_recvd split: request.splits)
  with iterate.IH [OF c rs] show ?case by simp
qed

lemma NewServer_simps:
  "clients NewServer = Map.empty" "recvd NewServer = (\<lambda>c. [])"
  by (simp_all add: NewServer_def)

lemma listen_from_NewServer:
  "listen NewServer rs b \<Longrightarrow>
     clients b s = (if attached_since s rs then Some True else None) \<and>
     recvd b s = published_while_member s rs"
proof (induction rs arbitrary: b rule: rev_induct)
  case Nil
  then show ?case
    by (simp add: listen_Nil NewServer_simps attached_since_Nil published_while_member_Nil)
next
  case (snoc r rs)
  from snoc.prems obtain b1 where run: "listen NewServer rs b1" and st: "listen_step b1 r b"
    by (auto simp: listen_append listen_single)
  from snoc.IH [OF run]
  have c1: "clients b1 s = (if attached_since s rs then Some True else None)"
    and r1: "recvd b1 s = published_while_member s rs" by simp_all
  from c1 have d1: "s \<in> dom (clients b1) \<longleftrightarrow> attached_since s rs"
    by (auto simp: domIff)
  have "clients b s = (if attached_since s (rs @ [r]) then Some True else None)"
    using step_clients [OF st, of s] c1 by (auto simp: attached_since_snoc)
  moreover have "recvd b s = published_while_member s (rs @ [r])"
    using step_recvd [OF st, of s] r1 d1
    by (simp add: published_while_member_snoc split: request.splits)
  ultimately show ?case by simp
qed

lemma NewServer_finite: "finite (dom (clients NewServer))"
  by (simp add: NewServer_simps)

lemma scenario_run: "\<exists>b. listen NewServer scenario b"
  using NewServer_finite by (rule listen_ex)

lemma distinct_count_list:
  "distinct ks \<Longrightarrow> count_list ks s = (if s \<in> set ks then 1 else 0)"
  by (induction ks) auto

section \<open>Properties of the session handler\<close>

lemma Sprintf_frame: "Sprintf ''data: %s\<newline>\<newline>'' [ev] = ''data: '' @ ev @ ''\<newline>\<newline>''"
  by simp

lemma for_loop_exit: "snd (for_loop incoming) = Receiving"
  by (induction incoming rule: for_loop.induct) (auto simp: Fprintf_def split: prod.splits)

lemma for_loop_written:
  "written (fst (for_loop incoming)) = map (\<lambda>(ev, ok). ''data: '' @ ev @ ''\<newline>\<newline>'') incoming"
  by (induction incoming rule: for_loop.induct) (auto simp: Fprintf_def split: prod.splits)

lemma for_loop_requests: "requests_of (fst (for_loop incoming)) = []"
  by (induction incoming rule: for_loop.induct) (auto simp: Fprintf_def split: prod.splits)

lemma for_loop_no_closing: "SendClosingClients c \<notin> set (fst (for_loop incoming))"
  by (induction incoming rule: for_loop.induct) (auto simp: Fprintf_def split: prod.splits)

lemma ServeHTTP_never_returns:
  "exit (ServeHTTP True msgChan incoming ctx_done) = Receiving \<and>
   SendClosingClients msgChan \<notin> set (handler (ServeHTTP True msgChan incoming ctx_done))"
proof (cases "for_loop incoming")
  case (Pair effs st)
  with for_loop_exit [of incoming] for_loop_no_closing [of msgChan incoming]
  show ?thesis by (simp add: ServeHTTP_def)
qed

section \<open>The claims\<close>

text \<open>
  C1. Whatever requests the loop has processed since \<^verbatim>\<open>NewServer\<close>, the loop can process
  them, and what a sink has been handed is exactly the events published while it was a
  member, each once and in publish order: a \<^verbatim>\<open>Notifier\<close> iteration hands the event once to
  every member and to nobody else, and after a sink's \<^verbatim>\<open>closingClients\<close> request nothing
  more is handed to it (as long as it is not registered anew).
\<close>

theorem listen_delivers_exactly_once:
  "(\<exists>b. listen NewServer rs b) \<and>
   (\<forall>b. listen NewServer rs b \<longrightarrow> recvd b s = published_while_member s rs) \<and>
   (\<forall>b ev b'. listen_step b (Notify ev) b' \<longrightarrow>
      recvd b' s = (if s \<in> dom (clients b) then recvd b s @ [ev] else recvd b s)) \<and>
   (\<forall>b1 b2 post b3.
      listen_step b1 (ClosingClient s) b2 \<and> listen b2 post b3 \<and> NewClient s \<notin> set post
        \<longrightarrow> recvd b3 s = recvd b2 s)"
proof (intro conjI allI impI)
  show "\<exists>b. listen NewServer rs b"
    using NewServer_finite by (rule listen_ex)
next
  fix b assume "listen NewServer rs b"
  then show "recvd b s = published_while_member s rs"
    by (simp add: listen_from_NewServer)
next
  fix b ev b' assume "listen_step b (Notify ev) b'"
  then show "recvd b' s = (if s \<in> dom (clients b) then recvd b s @ [ev] else recvd b s)"
    by (simp add: step_recvd)
next
  fix b1 b2 post b3
  assume a: "listen_step b1 (ClosingClient s) b2 \<and> listen b2 post b3 \<and> NewClient s \<notin> set post"
  then have "clients b2 s = None" by (simp add: closing_client_step)
  with a show "recvd b3 s = recvd b2 s"
    using listen_stays_out by blast
qed

theorem listen_delivers_exactly_once_witness:
  "\<exists>b. listen NewServer scenario b \<and> recvd b 1 = [''hello'', ''world'']"
proof -
  from listen_delivers_exactly_once [of scenario 1]
  obtain b where b: "listen NewServer scenario b"
    and "\<forall>b. listen NewServer scenario b \<longrightarrow> recvd b 1 = published_while_member 1 scenario"
    by blast
  then have "recvd b 1 = published_while_member 1 scenario" by blast
  also have "\<dots> = [''hello'', ''world'']"
    unfolding scenario_def by code_simp
  finally show ?thesis using b by blast
qed

text \<open>
  C2, as stated, fails on the loop. The registry holds the sinks 1 and 2, and the
  session of sink 1 never comes to receive (its transport write never completes): in
  either order of the keys the \<^verbatim>\<open>range\<close> of lines 39 to 41 never ends, so the loop
  processes no further request and sink 2 gets no later event.
\<close>

theorem stalled_client_blocks_loop_counterexample:
  "range_order [1 \<mapsto> True, 2 \<mapsto> True] [1, 2] \<and>
   range_order [1 \<mapsto> True, 2 \<mapsto> True] [2, 1] \<and>
   range_send (\<lambda>c. c = 2) [1, 2] ''x'' (\<lambda>c. []) = None \<and>
   range_send (\<lambda>c. c = 2) [2, 1] ''x'' (\<lambda>c. []) = None"
  by (auto simp: range_order_def)

text \<open>
  C2, as the code has it. The client channels are unbuffered and the loop sends on them
  one after the other, so handing an event over waits for the session: the
  \<^verbatim>\<open>range\<close> of lines 39 to 41 comes to an end exactly when every member's session comes
  to receive, and then every member has been handed the event once.
\<close>

theorem range_send_completes_iff:
  assumes "range_order m ks"
  shows "(range_send rcv ks ev h = None \<longleftrightarrow> (\<exists>c\<in>dom m. \<not> rcv c)) \<and>
         ((\<forall>c\<in>dom m. rcv c) \<longrightarrow>
            range_send rcv ks ev h = Some (\<lambda>c. if c \<in> dom m then h c @ [ev] else h c))"
proof -
  from assms have d: "distinct ks" and s: "set ks = dom m"
    by (simp_all add: range_order_def)
  from s have "range_send rcv ks ev h = None \<longleftrightarrow> (\<exists>c\<in>dom m. \<not> rcv c)"
    by (simp add: range_send_None_iff)
  moreover have "range_send rcv ks ev h = Some (\<lambda>c. if c \<in> dom m then h c @ [ev] else h c)"
    if "\<forall>c\<in>dom m. rcv c"
    using range_send_all [OF d, of rcv ev h] that s by simp
  ultimately show ?thesis by blast
qed

theorem range_send_completes_iff_witness:
  "range_order [1 \<mapsto> True, 2 \<mapsto> True] [2, 1] \<and>
   range_send (\<lambda>c. c = 2) [2, 1] ''x'' (\<lambda>c. []) = None \<and>
   range_send (\<lambda>c. True) [2, 1] ''x'' (\<lambda>c. []) =
     Some (\<lambda>c. if c \<in> dom [1 \<mapsto> True, 2 \<mapsto> (True::bool)] then [] @ [''x''] else [])"
proof -
  have ro: "range_order [1 \<mapsto> True, 2 \<mapsto> True] [2, 1]"
    by (auto simp: range_order_def)
  from range_send_completes_iff [OF ro, of "\<lambda>c. c = 2" "''x''" "\<lambda>c. []"]
  have "range_send (\<lambda>c. c = 2) [2, 1] ''x'' (\<lambda>c. []) = None" by simp
  moreover from range_send_completes_iff [OF ro, of "\<lambda>c. True" "''x''" "\<lambda>c. []"]
  have "range_send (\<lambda>c. True) [2, 1] ''x'' (\<lambda>c. []) =
     Some (\<lambda>c. if c \<in> dom [1 \<mapsto> True, 2 \<mapsto> (True::bool)] then [] @ [''x''] else [])"
    by blast
  ultimately show ?thesis using ro by blast
qed

text \<open>
  C3. When the loop processes the publication of \<open>evA\<close> and later that of \<open>evB\<close>, and
  the sink is a member at both moments, then the sink is handed \<open>evA\<close> right after what
  it had been handed before, and \<open>evB\<close> at a later position.
\<close>

theorem listen_keeps_publish_order:
  assumes run: "listen NewServer (r1 @ Notify evA # r2 @ Notify evB # r3) b"
    and memA: "attached_since s r1"
    and memB: "attached_since s (r1 @ Notify evA # r2)"
  shows "\<exists>mid rest. recvd b s = published_while_member s r1 @ evA # mid @ evB # rest"
proof -
  from run obtain b1 b2 b3 b4 where
    run1: "listen NewServer r1 b1" and stA: "listen_step b1 (Notify evA) b2"
    and run2: "listen b2 r2 b3" and stB: "listen_step b3 (Notify evB) b4"
    and run3: "listen b4 r3 b"
    by (auto simp: listen_append listen_Cons)
  from run1 memA have r1: "recvd b1 s = published_while_member s r1"
    and m1: "s \<in> dom (clients b1)"
    by (simp_all add: listen_from_NewServer domIff)
  from stA m1 have r2: "recvd b2 s = recvd b1 s @ [evA]"
    by (simp add: step_recvd)
  from run2 obtain mid where r3: "recvd b3 s = recvd b2 s @ mid"
    using listen_recvd_prefix by blast
  from run1 stA run2 have "listen NewServer (r1 @ Notify evA # r2) b3"
    by (auto simp: listen_append listen_Cons)
  with memB have m3: "s \<in> dom (clients b3)"
    by (simp add: listen_from_NewServer domIff)
  with stB have r4: "recvd b4 s = recvd b3 s @ [evB]"
    by (simp add: step_recvd)
  from run3 obtain rest where r5: "recvd b s = recvd b4 s @ rest"
    using listen_recvd_prefix by blast
  from r1 r2 r3 r4 r5 have "recvd b s = published_while_member s r1 @ evA # mid @ evB # rest"
    by simp
  then show ?thesis by blast
qed

theorem listen_keeps_publish_order_witness:
  "\<exists>b. listen NewServer ([NewClient 1] @ Notify ''hello'' # [NewClient 2] @ Notify ''world'' # [ClosingClient 1, Notify ''x'']) b \<and>
       attached_since 1 [NewClient 1] \<and>
       attached_since 1 ([NewClient 1] @ Notify ''hello'' # [NewClient 2]) \<and>
       (\<exists>mid rest. recvd b 1 = published_while_member 1 [NewClient 1] @ ''hello'' # mid @ ''world'' # rest)"
proof -
  obtain b where b: "listen NewServer scenario b" using scenario_run by blast
  then have run: "listen NewServer ([NewClient 1] @ Notify ''hello'' # [NewClient 2] @ Notify ''world'' # [ClosingClient 1, Notify ''x'']) b"
    by (simp add: scenario_def)
  have a1: "attached_since 1 [NewClient 1]" by code_simp
  have a2: "attached_since 1 ([NewClient 1] @ Notify ''hello'' # [NewClient 2])" by code_simp
  from listen_keeps_publish_order [OF run a1 a2] run a1 a2 show ?thesis by blast
qed

text \<open>
  C4. After any requests processed since \<^verbatim>\<open>NewServer\<close>, a sink is in the registry
  exactly when a \<^verbatim>\<open>newClients\<close> request for it has been processed and no
  \<^verbatim>\<open>closingClients\<close> request for it since; its entry is \<^verbatim>\<open>true\<close>; the registry can be
  ranged over, and every \<^verbatim>\<open>range\<close> over it produces a member once and no other sink.
\<close>

theorem registry_membership_invariant:
  assumes "listen NewServer rs b"
  shows "clients b s = (if attached_since s rs then Some True else None) \<and>
         (s \<in> dom (clients b) \<longleftrightarrow> attached_since s rs) \<and>
         (\<exists>ks. range_order (clients b) ks) \<and>
         (\<forall>ks. range_order (clients b) ks \<longrightarrow>
            count_list ks s = (if attached_since s rs then 1 else 0))"
proof -
  from assms have c: "clients b s = (if attached_since s rs then Some True else None)"
    by (simp add: listen_from_NewServer)
  then have d: "s \<in> dom (clients b) \<longleftrightarrow> attached_since s rs"
    by (auto simp: domIff)
  from assms NewServer_finite have "finite (dom (clients b))" by (rule listen_finite)
  then have e: "\<exists>ks. range_order (clients b) ks" by (rule range_order_ex)
  have "count_list ks s = (if attached_since s rs then 1 else 0)"
    if "range_order (clients b) ks" for ks
  proof -
    from that have "distinct ks" and "set ks = dom (clients b)"
      by (simp_all add: range_order_def)
    with d show ?thesis by (simp add: distinct_count_list)
  qed
  with c d e show ?thesis by blast
qed

theorem registry_membership_invariant_witness:
  "\<exists>b. listen NewServer scenario b \<and> clients b 1 = None \<and> clients b 2 = Some True \<and>
       1 \<notin> dom (clients b) \<and> 2 \<in> dom (clients b) \<and>
       (\<exists>ks. range_order (clients b) ks \<and> count_list ks 1 = 0 \<and> count_list ks 2 = 1)"
proof -
  obtain b where b: "listen NewServer scenario b" using scenario_run by blast
  have n1: "\<not> attached_since 1 scenario" unfolding scenario_def by code_simp
  have n2: "attached_since 2 scenario" unfolding scenario_def by code_simp
  note i1 = registry_membership_invariant [OF b, of 1]
    and i2 = registry_membership_invariant [OF b, of 2]
  from i1 n1 have c1: "clients b 1 = None" and d1: "1 \<notin> dom (clients b)" by metis+
  from i2 n2 have c2: "clients b 2 = Some True" and d2: "2 \<in> dom (clients b)" by metis+
  from i1 obtain ks where ks: "range_order (clients b) ks" by blast
  from i1 ks have "count_list ks 1 = (if attached_since 1 scenario then 1 else 0)" by blast
  with n1 have k1: "count_list ks 1 = 0" by simp
  from i2 ks have "count_list ks 2 = (if attached_since 2 scenario then 1 else 0)" by blast
  with n2 have k2: "count_list ks 2 = 1" by simp
  from b c1 c2 d1 d2 ks k1 k2 show ?thesis by blast
qed

text \<open>
  C5. In every state the loop processes a \<^verbatim>\<open>closingClients\<close> request (there is no failing
  branch); for a sink that is not in the registry the state stays as it is, in
  particular for a sink never attached or already detached since \<^verbatim>\<open>NewServer\<close>;
  processing the request a second time changes nothing.
\<close>

theorem closing_client_idempotent:
  "(\<exists>b'. listen_step b (ClosingClient s) b') \<and>
   (\<forall>b'. listen_step b (ClosingClient s) b' \<longrightarrow>
      (s \<notin> dom (clients b) \<longrightarrow> b' = b) \<and>
      (\<forall>b''. listen_step b' (ClosingClient s) b'' \<longrightarrow> b'' = b')) \<and>
   (\<forall>rs. listen NewServer rs b \<and> \<not> attached_since s rs \<longrightarrow>
      listen_step b (ClosingClient s) b)"
proof (intro conjI allI impI)
  show "\<exists>b'. listen_step b (ClosingClient s) b'"
    by (auto intro: listen_step.closing_client)
next
  fix b' assume "listen_step b (ClosingClient s) b'" and "s \<notin> dom (clients b)"
  then show "b' = b" by (simp add: closing_client_step domIff)
next
  fix b' b'' assume "listen_step b (ClosingClient s) b'" and "listen_step b' (ClosingClient s) b''"
  then show "b'' = b'" by (simp add: closing_client_step)
next
  fix rs assume "listen NewServer rs b \<and> \<not> attached_since s rs"
  then have "clients b s = None" using listen_from_NewServer [of rs b s] by simp
  then have "(clients b)(s := None) = clients b" by (simp add: fun_upd_idem)
  then show "listen_step b (ClosingClient s) b" by (simp add: closing_client_step)
qed

theorem closing_client_idempotent_witness:
  "listen_step NewServer (ClosingClient 1) NewServer \<and>
   listen NewServer [ClosingClient 1, ClosingClient 1] NewServer"
proof -
  from closing_client_idempotent [of NewServer 1]
  have "listen_step NewServer (ClosingClient 1) NewServer"
    by (auto simp: NewServer_simps)
  then show ?thesis by (simp add: listen_Cons listen_Nil) blast
qed

text \<open>
  C6. For every event that arrives on \<^verbatim>\<open>msgChan\<close>, the handler writes to the transport
  the bytes \<^verbatim>\<open>data: \<close>, then the payload, then two newline characters (byte 10), and
  it writes nothing else.
\<close>

theorem ServeHTTP_frames:
  "written (handler (ServeHTTP True msgChan incoming ctx_done)) =
     map (\<lambda>(ev, ok). ''data: '' @ ev @ [CHR 0x0A, CHR 0x0A]) incoming"
proof (cases "for_loop incoming")
  case (Pair effs st)
  with for_loop_written [of incoming] for_loop_exit [of incoming]
  show ?thesis by (simp add: ServeHTTP_def)
qed

theorem ServeHTTP_frames_witness:
  "written (handler (ServeHTTP True 7 [(''hello'', True)] False)) =
     [[CHR ''d'', CHR ''a'', CHR ''t'', CHR ''a'', CHR '':'', CHR '' '',
       CHR ''h'', CHR ''e'', CHR ''l'', CHR ''l'', CHR ''o'', CHR 0x0A, CHR 0x0A]]"
  using ServeHTTP_frames [of 7 "[(''hello'', True)]" False] by simp

text \<open>
  C7. When the transport is no \<^verbatim>\<open>http.Flusher\<close>, the handler answers with
  \<^verbatim>\<open>http.Error\<close> (status 500) and returns: it sends nothing to the loop, sets none of
  the stream's headers and writes no frame, and no goroutine is started; the state of
  the loop stays as it is.
\<close>

theorem ServeHTTP_without_flusher:
  "ServeHTTP False msgChan incoming ctx_done =
     \<lparr>handler = [HttpError ''Streaming unsupported!'' 500], watcher = [], exit = Returned\<rparr> \<and>
   requests_of (handler (ServeHTTP False msgChan incoming ctx_done) @
                watcher (ServeHTTP False msgChan incoming ctx_done)) = [] \<and>
   written (handler (ServeHTTP False msgChan incoming ctx_done)) = [] \<and>
   (\<forall>k v. HeaderSet k v \<notin> set (handler (ServeHTTP False msgChan incoming ctx_done))) \<and>
   (\<forall>b b'. listen b (requests_of (handler (ServeHTTP False msgChan incoming ctx_done) @
                                  watcher (ServeHTTP False msgChan incoming ctx_done))) b'
        \<longrightarrow> b' = b)"
  by (simp add: ServeHTTP_def listen_Nil)

theorem ServeHTTP_without_flusher_witness:
  "listen NewServer (requests_of (handler (ServeHTTP False 7 [(''hello'', True)] True) @
                                 watcher (ServeHTTP False 7 [(''hello'', True)] True))) NewServer \<and>
   exit (ServeHTTP False 7 [(''hello'', True)] True) = Returned"
  using ServeHTTP_without_flusher [of 7 "[(''hello'', True)]" True]
  by (simp add: listen_Nil)

text \<open>
  C8 fails on the code. An event whose write fails leaves the handler in its loop: it
  waits for the next event, the function deferred at line 67 has not run, and nothing
  has been sent on \<^verbatim>\<open>closingClients\<close>. When the request's context is cancelled, the
  goroutine of line 73 sends on \<^verbatim>\<open>closingClients\<close>, and the handler still waits for the
  next event.
\<close>

theorem ServeHTTP_write_failure_keeps_receiving:
  "ServeHTTP True 7 [(''x'', False)] False =
     \<lparr>handler =
        [HeaderSet ''Content-Type'' ''text/event-stream'',
         HeaderSet ''Cache-Control'' ''no-cache'',
         HeaderSet ''Connection'' ''keep-alive'',
         HeaderSet ''Access-Control-Allow-Origin'' ''*'',
         SendNewClients 7,
         Write ''data: x\<newline>\<newline>'', Flush],
      watcher = [], exit = Receiving\<rparr> \<and>
   ServeHTTP True 7 [(''x'', False)] True =
     \<lparr>handler =
        [HeaderSet ''Content-Type'' ''text/event-stream'',
         HeaderSet ''Cache-Control'' ''no-cache'',
         HeaderSet ''Connection'' ''keep-alive'',
         HeaderSet ''Access-Control-Allow-Origin'' ''*'',
         SendNewClients 7,
         Write ''data: x\<newline>\<newline>'', Flush],
      watcher = [SendClosingClients 7], exit = Receiving\<rparr>"
  by (simp add: ServeHTTP_def Fprintf_def)




text \<open>
  C10. In every state the loop processes a \<^verbatim>\<open>newClients\<close> request; for a sink that is
  already in the registry the set of members, their number, the orders a \<^verbatim>\<open>range\<close> can
  take and everything handed over so far stay as they are (the whole state does when
  the entry is \<^verbatim>\<open>true\<close>, as every entry the loop writes is); processing the request a
  second time changes nothing.
\<close>

theorem new_client_idempotent:
  "(\<exists>b'. listen_step b (NewClient s) b') \<and>
   (\<forall>b'. listen_step b (NewClient s) b' \<longrightarrow>
      (s \<in> dom (clients b) \<longrightarrow>
         dom (clients b') = dom (clients b) \<and>
         card (dom (clients b')) = card (dom (clients b)) \<and>
         recvd b' = recvd b \<and>
         (\<forall>ks. range_order (clients b') ks \<longleftrightarrow> range_order (clients b) ks)) \<and>
      (clients b s = Some True \<longrightarrow> b' = b) \<and>
      (\<forall>b''. listen_step b' (NewClient s) b'' \<longrightarrow> b'' = b'))"
proof (intro conjI allI impI)
  show "\<exists>b'. listen_step b (NewClient s) b'"
    by (auto intro: listen_step.new_client)
next
  fix b' assume st: "listen_step b (NewClient s) b'" and mem: "s \<in> dom (clients b)"
  then show d: "dom (clients b') = dom (clients b)"
    by (auto simp: new_client_step)
  then show "card (dom (clients b')) = card (dom (clients b))" by simp
  from st show "recvd b' = recvd b" by (simp add: new_client_step)
  fix ks
  from d show "range_order (clients b') ks \<longleftrightarrow> range_order (clients b) ks"
    by (simp add: range_order_def)
next
  fix b' assume "listen_step b (NewClient s) b'" and "clients b s = Some True"
  then show "b' = b" by (simp add: new_client_step fun_upd_idem)
next
  fix b' b'' assume "listen_step b (NewClient s) b'" and "listen_step b' (NewClient s) b''"
  then show "b'' = b'" by (simp add: new_client_step)
qed

theorem new_client_idempotent_witness:
  "\<exists>b. listen NewServer [NewClient 1] b \<and> listen NewServer [NewClient 1, NewClient 1] b \<and>
       dom (clients b) = {1}"
proof -
  let ?b = "NewServer\<lparr>clients := (clients NewServer)(1 \<mapsto> True)\<rparr>"
  have s1: "listen_step NewServer (NewClient 1) ?b" by (rule listen_step.new_client)
  from new_client_idempotent [of ?b 1] obtain b2 where s2: "listen_step ?b (NewClient 1) b2"
    and "clients ?b 1 = Some True \<longrightarrow> b2 = ?b" by blast
  then have "b2 = ?b" by simp
  with s1 s2 have "listen NewServer [NewClient 1] ?b \<and> listen NewServer [NewClient 1, NewClient 1] ?b"
    by (auto simp: listen_Cons listen_Nil)
  moreover have "dom (clients ?b) = {1}" by (simp add: NewServer_simps)
  ultimately show ?thesis by blast
qed

end
